theory Spec2Isabelle
  imports Main "HOL-Library.Word"
begin

section \<open>Data model of the issue indexer\<close>

text \<open>
  The Go package \<open>issues\<close> (issue indexer) keeps a secondary index of issue texts in step
  with the database through a queue. This theory embeds its data types, the indexer
  holder, the queue handler, the populator and the mutation and search entry points, and
  then proves properties of them.

  \<open>int64\<close> values are 64-bit words. A \<open>float64\<close> score is carried as its 64-bit pattern:
  the code never computes with it. Go's \<open>error\<close> interface is a value that carries a
  message; a nil error is \<open>None\<close>. A nil slice and an empty slice are both \<open>[]\<close>, as the
  code only ever takes their length or ranges over them.
\<close>

type_synonym int64 = "64 word"
type_synonym float64 = "64 word"

datatype error = Error string

record IndexerData =
  ID :: int64
  RepoID :: int64
  Title :: string
  Content :: string
  Comments :: "string list"
  IsDelete :: bool
  IDs :: "int64 list"

datatype Match = Match (Match_ID: int64) (Score: float64)

record SearchResult =
  Total :: int64
  Hits :: "Match list"

text \<open>
  \<open>queue.Data\<close> is the empty interface: a datum of the queue is a pointer to an
  \<open>IndexerData\<close> or a value of some other dynamic type, for which the type assertion of
  the handler fails. The queue engine decodes every datum into a fresh copy of its
  exemplar, so the pointer is never nil.
\<close>

datatype Data = IndexerDatum IndexerData | OtherDatum

subsection \<open>The indexer interface\<close>

text \<open>
  An implementation of the \<open>Indexer\<close> interface is a backend with a state of its own
  (type \<open>'s\<close>): every method reads that state and may change it, and two calls with the
  same arguments may answer differently. Only the methods that the functions below call
  are fields here (\<open>Init\<close>, \<open>Close\<close> and \<open>SetAvailabilityChangeCallback\<close> are
  used by \<open>InitIssueIndexer\<close> alone). \<open>Search\<close> returns the pair of Go, a result
  pointer that may be nil and an error that may be nil.
\<close>

record 's Indexer =
  Ping :: "'s \<Rightarrow> bool \<times> 's"
  Index :: "IndexerData list \<Rightarrow> 's \<Rightarrow> error option \<times> 's"
  Delete :: "int64 list \<Rightarrow> 's \<Rightarrow> error option \<times> 's"
  Search :: "string \<Rightarrow> int64 list \<Rightarrow> int \<Rightarrow> int \<Rightarrow> 's
               \<Rightarrow> (SearchResult option \<times> error option) \<times> 's"

text \<open>
  The calls that reach the backend are recorded, in order, with what the backend
  answered. A run carries the backend's state and this record.
\<close>

datatype call =
    CallDelete "int64 list" "error option"
  | CallPing bool
  | CallIndex "IndexerData list" "error option"
  | CallSearch string "int64 list" int int

type_synonym 's run = "'s \<times> call list"

definition do_Ping :: "'s Indexer \<Rightarrow> 's run \<Rightarrow> bool \<times> 's run" where
  "do_Ping indexer \<sigma> =
     (let (alive, s') = Ping indexer (fst \<sigma>)
      in (alive, (s', snd \<sigma> @ [CallPing alive])))"

definition do_Index :: "'s Indexer \<Rightarrow> IndexerData list \<Rightarrow> 's run \<Rightarrow> error option \<times> 's run" where
  "do_Index indexer iData \<sigma> =
     (let (err, s') = Index indexer iData (fst \<sigma>)
      in (err, (s', snd \<sigma> @ [CallIndex iData err])))"

definition do_Delete :: "'s Indexer \<Rightarrow> int64 list \<Rightarrow> 's run \<Rightarrow> error option \<times> 's run" where
  "do_Delete indexer ids \<sigma> =
     (let (err, s') = Delete indexer ids (fst \<sigma>)
      in (err, (s', snd \<sigma> @ [CallDelete ids err])))"

definition do_Search ::
  "'s Indexer \<Rightarrow> string \<Rightarrow> int64 list \<Rightarrow> int \<Rightarrow> int \<Rightarrow> 's run
     \<Rightarrow> (SearchResult option \<times> error option) \<times> 's run" where
  "do_Search indexer kw repoIDs limit start \<sigma> =
     (let (r, s') = Search indexer kw repoIDs limit start (fst \<sigma>)
      in (r, (s', snd \<sigma> @ [CallSearch kw repoIDs limit start])))"

section \<open>The queue handler\<close>

text \<open>
  The loop of the handler over the batch, with its two slices \<open>iData\<close> and
  \<open>unhandled\<close> as accumulators. A datum of another type is skipped. A delete record
  calls \<open>Delete\<close> with the ids of that record; when the call fails, \<open>Ping\<close> decides:
  the record is given up when the backend answers, and appended to \<open>unhandled\<close> when it
  does not. Every other record is appended to \<open>iData\<close>.
\<close>

fun handler_loop ::
  "'s Indexer \<Rightarrow> Data list \<Rightarrow> IndexerData list \<Rightarrow> Data list \<Rightarrow> 's run
     \<Rightarrow> IndexerData list \<times> Data list \<times> 's run" where
  "handler_loop indexer [] iData unhandled \<sigma> = (iData, unhandled, \<sigma>)"
| "handler_loop indexer (datum # data) iData unhandled \<sigma> =
     (case datum of
        OtherDatum \<Rightarrow> handler_loop indexer data iData unhandled \<sigma>
      | IndexerDatum indexerData \<Rightarrow>
          if IsDelete indexerData then
            (let (err, \<sigma>1) = do_Delete indexer (IDs indexerData) \<sigma>
             in case err of
                  Some e \<Rightarrow>
                    (let (alive, \<sigma>2) = do_Ping indexer \<sigma>1
                     in if alive then handler_loop indexer data iData unhandled \<sigma>2
                        else handler_loop indexer data iData (unhandled @ [datum]) \<sigma>2)
                | None \<Rightarrow> handler_loop indexer data iData unhandled \<sigma>1)
          else handler_loop indexer data (iData @ [indexerData]) unhandled \<sigma>)"

text \<open>
  The handler. Its first argument is what \<open>holder.get()\<close> returned: \<open>None\<close> is the nil
  indexer of a cancelled holder, and the batch goes back whole. Otherwise the loop runs;
  a non-empty \<open>unhandled\<close> is returned with the records of \<open>iData\<close> appended; else
  \<open>Index\<close> is called once on \<open>iData\<close>, and after a failure \<open>Ping\<close> decides between
  returning nil and returning the records of \<open>iData\<close>.
\<close>

definition handler :: "'s Indexer option \<Rightarrow> Data list \<Rightarrow> 's \<Rightarrow> Data list \<times> 's run" where
  "handler got data s =
     (case got of
        None \<Rightarrow> (data, (s, []))
      | Some indexer \<Rightarrow>
          (let (iData, unhandled, \<sigma>) = handler_loop indexer data [] [] (s, [])
           in if length unhandled > 0 then (unhandled @ map IndexerDatum iData, \<sigma>)
              else
                (let (err, \<sigma>1) = do_Index indexer iData \<sigma>
                 in case err of
                      Some e \<Rightarrow>
                        (let (alive, \<sigma>2) = do_Ping indexer \<sigma>1
                         in if alive then ([], \<sigma>2)
                            else (unhandled @ map IndexerDatum iData, \<sigma>2))
                    | None \<Rightarrow> ([], \<sigma>1))))"

section \<open>The indexer holder\<close>

text \<open>
  The holder has one slot for the indexer and a flag (the fields \<open>indexer\<close> and
  \<open>cancelled\<close> of the struct). Its mutex makes \<open>cancel\<close>,
  \<open>set\<close> and the locked parts of \<open>get\<close> atomic, so each is one step on the state of
  the holder. The argument of \<open>set\<close> is an interface value and may be nil.
\<close>

record 'b indexerHolder =
  holder_indexer :: "'b option"
  holder_cancelled :: bool

definition newIndexerHolder :: "'b indexerHolder" where
  "newIndexerHolder = \<lparr> holder_indexer = None, holder_cancelled = False \<rparr>"

definition cancel :: "'b indexerHolder \<Rightarrow> 'b indexerHolder" where
  "cancel h = h\<lparr> holder_cancelled := True \<rparr>"

definition set_holder :: "'b option \<Rightarrow> 'b indexerHolder \<Rightarrow> 'b indexerHolder" where
  "set_holder b h = h\<lparr> holder_indexer := b \<rparr>"

text \<open>
  A caller of \<open>get\<close> is at its entry, suspended in \<open>cond.Wait()\<close>, woken by a
  broadcast and about to take the read lock again, or it has returned a value. At the
  entry it takes the read lock and tests \<open>h.indexer == nil && !h.cancelled\<close>: it waits
  when the test holds and returns \<open>h.indexer\<close> otherwise. The wait is guarded by
  \<open>if\<close>, not by a loop: a woken caller returns \<open>h.indexer\<close> as it then is. A
  suspended caller takes no step of its own; \<open>Wait\<close> of Go's \<open>sync.Cond\<close> returns
  only after a \<open>Broadcast\<close> or \<open>Signal\<close>, and the holder only broadcasts, in
  \<open>cancel\<close> and in \<open>set\<close>.
\<close>

datatype 'b get_pc = Entry | Waiting | Woken | Got "'b option"

fun get :: "'b indexerHolder \<Rightarrow> 'b get_pc \<Rightarrow> 'b get_pc" where
  "get h Entry = (if holder_indexer h = None \<and> \<not> holder_cancelled h then Waiting
      else Got (holder_indexer h))"
| "get h Waiting = Waiting"
| "get h Woken = Got (holder_indexer h)"
| "get h (Got r) = Got r"

fun Broadcast :: "'b get_pc \<Rightarrow> 'b get_pc" where
  "Broadcast Waiting = Woken"
| "Broadcast pc = pc"

text \<open>
  A schedule interleaves the calls of \<open>set\<close> and \<open>cancel\<close> made by other threads with
  the steps of one caller of \<open>get\<close>.
\<close>

datatype 'b holder_event = CallSet "'b option" | CallCancel | GetRuns

fun holder_step ::
  "'b indexerHolder \<times> 'b get_pc \<Rightarrow> 'b holder_event \<Rightarrow> 'b indexerHolder \<times> 'b get_pc" where
  "holder_step (h, pc) (CallSet b) = (set_holder b h, Broadcast pc)"
| "holder_step (h, pc) CallCancel = (cancel h, Broadcast pc)"
| "holder_step (h, pc) GetRuns = (h, get h pc)"

definition run_holder ::
  "'b holder_event list \<Rightarrow> 'b indexerHolder \<times> 'b get_pc \<Rightarrow> 'b indexerHolder \<times> 'b get_pc" where
  "run_holder es \<sigma> = foldl holder_step \<sigma> es"

fun is_writer :: "'b holder_event \<Rightarrow> bool" where
  "is_writer GetRuns = False"
| "is_writer e = True"

fun is_set :: "'b holder_event \<Rightarrow> bool" where
  "is_set (CallSet b) = True"
| "is_set e = False"

section \<open>Searching\<close>

text \<open>
  A Go function either returns or panics; \<open>SearchIssuesByKeyword\<close> dereferences the
  result pointer of \<open>Search\<close>, which panics on a nil pointer.
\<close>

datatype 'a outcome = Panic | Return 'a

text \<open>The loop that appends the id of every hit to \<open>issueIDs\<close>.\<close>

fun append_hit_ids :: "Match list \<Rightarrow> int64 list \<Rightarrow> int64 list" where
  "append_hit_ids [] issueIDs = issueIDs"
| "append_hit_ids (r # hits) issueIDs = append_hit_ids hits (issueIDs @ [Match_ID r])"

text \<open>
  \<open>SearchIssuesByKeyword\<close>; the first argument is what \<open>holder.get()\<close> returned. The
  context argument is passed on to the backend untouched and is left out.
\<close>

definition SearchIssuesByKeyword ::
  "'s Indexer option \<Rightarrow> int64 list \<Rightarrow> string \<Rightarrow> 's
     \<Rightarrow> (int64 list \<times> error option) outcome \<times> 's run" where
  "SearchIssuesByKeyword got repoIDs keyword s =
     (case got of
        None \<Rightarrow> (Return ([], Some (Error ''unable to get issue indexer'')), (s, []))
      | Some indexer \<Rightarrow>
          (let (r, \<sigma>) = do_Search indexer keyword repoIDs 50 0 (s, [])
           in case snd r of
                Some err \<Rightarrow> (Return ([], Some err), \<sigma>)
              | None \<Rightarrow>
                  (case fst r of
                     None \<Rightarrow> (Panic, \<sigma>)
                   | Some res \<Rightarrow> (Return (append_hit_ids (Hits res) [], None), \<sigma>))))"

section \<open>The mutation entry points and the populator\<close>

text \<open>
  Of the issue, comment and repository structs of the models only the fields that this
  package reads are kept. The comment-type enumeration is declared in the models, not
  here: its type is the parameter \<open>'ct\<close>, and its constant \<open>CommentTypeComment\<close> is
  given with the collaborators below.
\<close>

record 'ct Comment =
  Comment_Type :: 'ct
  Comment_Content :: string

record 'ct Issue =
  Issue_ID :: int64
  Issue_RepoID :: int64
  Issue_Title :: string
  Issue_Content :: string
  Issue_Comments :: "'ct Comment list"

record Repository =
  Repo_ID :: int64

text \<open>
  The collaborators, over a state \<open>'w\<close> of the world that every call may change: the
  non-blocking receive on \<open>ctx.Done()\<close> (true when the context is cancelled), the
  paginated repository search (by page number; the other options are constants), the
  issues of a repository, the loading of the comments of a list of issues (which fills
  \<open>Comments\<close> in place), the issue ids of a repository, and \<open>Push\<close> of the issue
  indexer queue. A call that returns a value and an error, and whose value is used only
  when the error is nil, returns a sum.
\<close>

record ('w, 'ct) World =
  CommentTypeComment :: 'ct
  ctx_Done :: "'w \<Rightarrow> bool \<times> 'w"
  SearchRepositoryByName :: "int \<Rightarrow> 'w \<Rightarrow> (error + Repository list) \<times> 'w"
  Issues :: "int64 \<Rightarrow> 'w \<Rightarrow> (error + 'ct Issue list) \<times> 'w"
  LoadDiscussComments :: "'ct Issue list \<Rightarrow> 'w \<Rightarrow> (error + 'ct Issue list) \<times> 'w"
  GetIssueIDsByRepoID :: "int64 \<Rightarrow> 'w \<Rightarrow> (error + int64 list) \<times> 'w"
  Push :: "IndexerData \<Rightarrow> 'w \<Rightarrow> error option \<times> 'w"

text \<open>The calls to the collaborators are recorded in order.\<close>

datatype event =
    EvDone bool
  | EvSearchRepositoryByName int
  | EvIssues int64
  | EvLoadDiscussComments
  | EvGetIssueIDsByRepoID int64
  | EvPush IndexerData

type_synonym 'w wrun = "'w \<times> event list"

definition do_Done :: "('w, 'ct) World \<Rightarrow> 'w wrun \<Rightarrow> bool \<times> 'w wrun" where
  "do_Done W \<sigma> =
     (let (done, w') = ctx_Done W (fst \<sigma>) in (done, (w', snd \<sigma> @ [EvDone done])))"

definition do_SearchRepositoryByName ::
  "('w, 'ct) World \<Rightarrow> int \<Rightarrow> 'w wrun \<Rightarrow> (error + Repository list) \<times> 'w wrun" where
  "do_SearchRepositoryByName W page \<sigma> =
     (let (r, w') = SearchRepositoryByName W page (fst \<sigma>)
      in (r, (w', snd \<sigma> @ [EvSearchRepositoryByName page])))"

definition do_Issues ::
  "('w, 'ct) World \<Rightarrow> int64 \<Rightarrow> 'w wrun \<Rightarrow> (error + 'ct Issue list) \<times> 'w wrun" where
  "do_Issues W repoID \<sigma> =
     (let (r, w') = Issues W repoID (fst \<sigma>) in (r, (w', snd \<sigma> @ [EvIssues repoID])))"

definition do_LoadDiscussComments ::
  "('w, 'ct) World \<Rightarrow> 'ct Issue list \<Rightarrow> 'w wrun \<Rightarrow> (error + 'ct Issue list) \<times> 'w wrun" where
  "do_LoadDiscussComments W is \<sigma> =
     (let (r, w') = LoadDiscussComments W is (fst \<sigma>)
      in (r, (w', snd \<sigma> @ [EvLoadDiscussComments])))"

definition do_GetIssueIDsByRepoID ::
  "('w, 'ct) World \<Rightarrow> int64 \<Rightarrow> 'w wrun \<Rightarrow> (error + int64 list) \<times> 'w wrun" where
  "do_GetIssueIDsByRepoID W repoID \<sigma> =
     (let (r, w') = GetIssueIDsByRepoID W repoID (fst \<sigma>)
      in (r, (w', snd \<sigma> @ [EvGetIssueIDsByRepoID repoID])))"

definition do_Push :: "('w, 'ct) World \<Rightarrow> IndexerData \<Rightarrow> 'w wrun \<Rightarrow> error option \<times> 'w wrun" where
  "do_Push W indexerData \<sigma> =
     (let (err, w') = Push W indexerData (fst \<sigma>)
      in (err, (w', snd \<sigma> @ [EvPush indexerData])))"

subsection \<open>UpdateIssueIndexer\<close>

text \<open>The loop over \<open>issue.Comments\<close> with the slice \<open>comments\<close> as accumulator.\<close>

fun collect_comments :: "'ct \<Rightarrow> 'ct Comment list \<Rightarrow> string list \<Rightarrow> string list" where
  "collect_comments t [] comments = comments"
| "collect_comments t (comment # cs) comments =
     (if Comment_Type comment = t
      then collect_comments t cs (comments @ [Comment_Content comment])
      else collect_comments t cs comments)"

text \<open>
  The fields that the composite literal leaves out have their zero values. An error of
  \<open>Push\<close> is logged and nothing else happens.
\<close>

definition UpdateIssueIndexer :: "('w, 'ct) World \<Rightarrow> 'ct Issue \<Rightarrow> 'w wrun \<Rightarrow> 'w wrun" where
  "UpdateIssueIndexer W issue \<sigma> =
     (let comments = collect_comments (CommentTypeComment W) (Issue_Comments issue) [];
          indexerData = \<lparr> ID = Issue_ID issue, RepoID = Issue_RepoID issue,
                          Title = Issue_Title issue, Content = Issue_Content issue,
                          Comments = comments, IsDelete = False, IDs = [] \<rparr>;
          (err, \<sigma>1) = do_Push W indexerData \<sigma>
      in \<sigma>1)"

subsection \<open>DeleteRepoIssueIndexer\<close>

definition DeleteRepoIssueIndexer :: "('w, 'ct) World \<Rightarrow> Repository \<Rightarrow> 'w wrun \<Rightarrow> 'w wrun" where
  "DeleteRepoIssueIndexer W repo \<sigma> =
     (let (r, \<sigma>1) = do_GetIssueIDsByRepoID W (Repo_ID repo) \<sigma>
      in case r of
           Inl err \<Rightarrow> \<sigma>1
         | Inr ids \<Rightarrow>
             if length ids = 0 then \<sigma>1
             else
               (let indexerData = \<lparr> ID = 0, RepoID = 0, Title = [], Content = [],
                                      Comments = [], IsDelete = True, IDs = ids \<rparr>;
                    (err, \<sigma>2) = do_Push W indexerData \<sigma>1
                in \<sigma>2))"

subsection \<open>UpdateRepoIndexer\<close>

fun update_issues :: "('w, 'ct) World \<Rightarrow> 'ct Issue list \<Rightarrow> 'w wrun \<Rightarrow> 'w wrun" where
  "update_issues W [] \<sigma> = \<sigma>"
| "update_issues W (issue # is) \<sigma> = update_issues W is (UpdateIssueIndexer W issue \<sigma>)"

definition UpdateRepoIndexer :: "('w, 'ct) World \<Rightarrow> Repository \<Rightarrow> 'w wrun \<Rightarrow> 'w wrun" where
  "UpdateRepoIndexer W repo \<sigma> =
     (let (r, \<sigma>1) = do_Issues W (Repo_ID repo) \<sigma>
      in case r of
           Inl err \<Rightarrow> \<sigma>1
         | Inr is \<Rightarrow>
             (let (r', \<sigma>2) = do_LoadDiscussComments W is \<sigma>1
              in case r' of
                   Inl err \<Rightarrow> \<sigma>2
                 | Inr is' \<Rightarrow> update_issues W is' \<sigma>2))"

subsection \<open>populateIssueIndexer\<close>

text \<open>
  The inner loop over the repositories of a page. It answers whether it ran to its end;
  it does not when the context is found cancelled, and then the function returns.
\<close>

fun populate_repos :: "('w, 'ct) World \<Rightarrow> Repository list \<Rightarrow> 'w wrun \<Rightarrow> bool \<times> 'w wrun" where
  "populate_repos W [] \<sigma> = (True, \<sigma>)"
| "populate_repos W (repo # repos) \<sigma> =
     (let (done, \<sigma>1) = do_Done W \<sigma>
      in if done then (False, \<sigma>1)
         else populate_repos W repos (UpdateRepoIndexer W repo \<sigma>1))"

text \<open>
  The outer loop \<open>for page := 1; ; page++\<close> has no bound: it ends when the context is
  cancelled or a page comes back empty, and a search that fails moves on to the next page
  (\<open>continue\<close> runs \<open>page++\<close>). The model runs at most a given number of iterations and
  says whether the function has returned within them. The page counter is an unbounded
  integer, which differs from Go's \<open>int\<close> only after more pages than it can count.
\<close>

datatype progress = Returned | Running

fun populate_pages ::
  "('w, 'ct) World \<Rightarrow> nat \<Rightarrow> int \<Rightarrow> 'w wrun \<Rightarrow> progress \<times> 'w wrun" where
  "populate_pages W 0 page \<sigma> = (Running, \<sigma>)"
| "populate_pages W (Suc n) page \<sigma> =
     (let (done, \<sigma>1) = do_Done W \<sigma>
      in if done then (Returned, \<sigma>1)
         else
           (let (r, \<sigma>2) = do_SearchRepositoryByName W page \<sigma>1
            in case r of
                 Inl err \<Rightarrow> populate_pages W n (page + 1) \<sigma>2
               | Inr repos \<Rightarrow>
                   if length repos = 0 then (Returned, \<sigma>2)
                   else
                     (let (completed, \<sigma>3) = populate_repos W repos \<sigma>2
                      in if completed then populate_pages W n (page + 1) \<sigma>3
                         else (Returned, \<sigma>3))))"

definition populateIssueIndexer :: "('w, 'ct) World \<Rightarrow> nat \<Rightarrow> 'w \<Rightarrow> progress \<times> 'w wrun" where
  "populateIssueIndexer W n w = populate_pages W n 1 (w, [])"

section \<open>Reading a batch and a record of calls\<close>

text \<open>
  The upsert records of a batch and its delete records, each in the order of the batch.
\<close>

fun upserts :: "Data list \<Rightarrow> IndexerData list" where
  "upserts [] = []"
| "upserts (OtherDatum # data) = upserts data"
| "upserts (IndexerDatum d # data) = (if IsDelete d then upserts data else d # upserts data)"

fun deletes :: "Data list \<Rightarrow> IndexerData list" where
  "deletes [] = []"
| "deletes (OtherDatum # data) = deletes data"
| "deletes (IndexerDatum d # data) = (if IsDelete d then d # deletes data else deletes data)"

text \<open>
  What a record of calls shows: whether a call is a call of \<open>Index\<close>; the arguments of
  the calls of \<open>Delete\<close>, in order; and, for each call of \<open>Delete\<close> in order, whether it
  failed and the \<open>Ping\<close> that followed it found the backend dead.
\<close>

fun is_index_call :: "call \<Rightarrow> bool" where
  "is_index_call (CallIndex recs err) = True"
| "is_index_call c = False"


fun delete_verdicts :: "call list \<Rightarrow> bool list" where
  "delete_verdicts [] = []"
| "delete_verdicts (CallDelete ids (Some e) # CallPing alive # tr) = (\<not> alive) # delete_verdicts tr"
| "delete_verdicts (CallDelete ids err # tr) = False # delete_verdicts tr"
| "delete_verdicts (c # tr) = delete_verdicts tr"

text \<open>
  The delete records of a batch that the record of calls marks: the i-th delete record is
  kept when the i-th call of \<open>Delete\<close> failed on a backend that \<open>Ping\<close> then found
  dead.
\<close>

definition redelivered :: "Data list \<Rightarrow> call list \<Rightarrow> IndexerData list" where
  "redelivered data tr = map fst (filter snd (zip (deletes data) (delete_verdicts tr)))"

text \<open>
  The loop of the handler read from the front of the batch, without accumulators: what it
  appends to \<open>unhandled\<close>, the state of the backend after it and the calls it makes.
  Lemma \<open>handler_loop_loop_view\<close> shows that \<open>handler_loop\<close> computes exactly this;
  the proofs below go through it.
\<close>

fun loop_view :: "'s Indexer \<Rightarrow> Data list \<Rightarrow> 's \<Rightarrow> Data list \<times> 's \<times> call list" where
  "loop_view indexer [] s = ([], s, [])"
| "loop_view indexer (OtherDatum # data) s = loop_view indexer data s"
| "loop_view indexer (IndexerDatum d # data) s =
     (if IsDelete d then
        (case Delete indexer (IDs d) s of
           (None, s1) \<Rightarrow>
             (let (u, s', t) = loop_view indexer data s1
              in (u, s', CallDelete (IDs d) None # t))
         | (Some e, s1) \<Rightarrow>
             (let (alive, s2) = Ping indexer s1; (u, s', t) = loop_view indexer data s2
              in ((if alive then [] else [IndexerDatum d]) @ u, s',
                  CallDelete (IDs d) (Some e) # CallPing alive # t)))
      else loop_view indexer data s)"

section \<open>Reading a record of events\<close>

text \<open>The records that a run pushed to the queue, in order.\<close>

fun pushes :: "event list \<Rightarrow> IndexerData list" where
  "pushes [] = []"
| "pushes (EvPush r # tr) = r # pushes tr"
| "pushes (e # tr) = pushes tr"

text \<open>
  The two shapes of a record: a single-item upsert has the delete flag off and no id
  list; a bulk delete has the flag on, a non-empty id list and the zero id.
\<close>

definition single_upsert :: "IndexerData \<Rightarrow> bool" where
  "single_upsert r \<longleftrightarrow> \<not> IsDelete r \<and> IDs r = []"

definition bulk_delete :: "IndexerData \<Rightarrow> bool" where
  "bulk_delete r \<longleftrightarrow> IsDelete r \<and> IDs r \<noteq> [] \<and> ID r = 0"

text \<open>
  The events that start work in the populator: fetching a page of repositories, and
  loading the issues of a repository, which is the first thing \<open>UpdateRepoIndexer\<close>
  does.
\<close>

fun starts_work :: "event \<Rightarrow> bool" where
  "starts_work (EvSearchRepositoryByName page) = True"
| "starts_work (EvIssues repoID) = True"
| "starts_work e = False"

text \<open>
  A monitor that reads a record of events from the left. It is \<open>Checked\<close> right after
  a check that found the context alive, \<open>Halted\<close> right after a check that found it
  cancelled, and \<open>Violated\<close>, for good, once an event follows a \<open>Halted\<close> state or
  an event that starts work comes in another state than \<open>Checked\<close>.
\<close>

datatype monitor = Idle | Checked | Halted | Violated

fun guard_step :: "monitor \<Rightarrow> event \<Rightarrow> monitor" where
  "guard_step Violated e = Violated"
| "guard_step Halted e = Violated"
| "guard_step q (EvDone done) = (if done then Halted else Checked)"
| "guard_step q (EvSearchRepositoryByName page) = (if q = Checked then Idle else Violated)"
| "guard_step q (EvIssues repoID) = (if q = Checked then Idle else Violated)"
| "guard_step q e = Idle"

definition guard_run :: "event list \<Rightarrow> monitor" where
  "guard_run tr = foldl guard_step Idle tr"

section \<open>Example backends\<close>

text \<open>
  A backend whose state counts the calls it has received. Its three flags fix whether
  \<open>Delete\<close> succeeds, whether \<open>Index\<close> succeeds and what \<open>Ping\<close> answers;
  \<open>Search\<close> serves the page of the given hits that the limit and the start select.
\<close>

definition stub_indexer :: "bool \<Rightarrow> bool \<Rightarrow> bool \<Rightarrow> Match list \<Rightarrow> nat Indexer" where
  "stub_indexer delete_ok index_ok alive hits =
     \<lparr> Ping = (\<lambda>n. (alive, Suc n)),
       Index = (\<lambda>recs n. (if index_ok then None else Some (Error ''index failed''), Suc n)),
       Delete = (\<lambda>ids n. (if delete_ok then None else Some (Error ''delete failed''), Suc n)),
       Search = (\<lambda>kw repoIDs limit start n.
                  ((Some \<lparr> Total = word_of_nat (length hits),
                            Hits = take (nat limit) (drop (nat start) hits) \<rparr>, None), Suc n)) \<rparr>"


text \<open>
  An upsert record and a bulk-delete record with the zero values of Go in the fields
  that their producers leave unset.
\<close>

definition upsert_record :: "int64 \<Rightarrow> IndexerData" where
  "upsert_record i =
     \<lparr> ID = i, RepoID = 7, Title = ''fix login bug'', Content = ''see patch attached'',
       Comments = [], IsDelete = False, IDs = [] \<rparr>"

definition delete_record :: "int64 list \<Rightarrow> IndexerData" where
  "delete_record ids =
     \<lparr> ID = 0, RepoID = 0, Title = [], Content = [], Comments = [],
       IsDelete = True, IDs = ids \<rparr>"

text \<open>
  A world whose state is a clock that every call advances. The context is cancelled from
  the given time on. There are two repositories, 7 and 8, on page 1, and no repository
  on a later page; every repository has one issue, whose id is the repository id plus
  35, with a regular comment (type 0) and a comment of another type.
\<close>

definition stub_issue :: "int64 \<Rightarrow> nat Issue" where
  "stub_issue repoID =
     \<lparr> Issue_ID = repoID + 35, Issue_RepoID = repoID, Issue_Title = ''fix login bug'',
       Issue_Content = ''it fails'',
       Issue_Comments =
         [\<lparr> Comment_Type = 0, Comment_Content = ''see patch attached'' \<rparr>,
          \<lparr> Comment_Type = 1, Comment_Content = ''changed the title'' \<rparr>] \<rparr>"

definition stub_world :: "nat \<Rightarrow> (nat, nat) World" where
  "stub_world cancel_time =
     \<lparr> CommentTypeComment = 0,
       ctx_Done = (\<lambda>n. (cancel_time \<le> n, Suc n)),
       SearchRepositoryByName =
         (\<lambda>page n. (Inr (if page = 1 then [\<lparr> Repo_ID = 7 \<rparr>, \<lparr> Repo_ID = 8 \<rparr>] else []), Suc n)),
       Issues = (\<lambda>repoID n. (Inr [stub_issue repoID], Suc n)),
       LoadDiscussComments = (\<lambda>is n. (Inr is, Suc n)),
       GetIssueIDsByRepoID =
         (\<lambda>repoID n. (Inr (if repoID = 7 then [42, 43] else []), Suc n)),
       Push = (\<lambda>r n. (None, Suc n)) \<rparr>"

section \<open>Properties of the queue handler\<close>

lemma handler_loop_loop_view:
  "handler_loop indexer data iData unhandled (s, tr) =
     (case loop_view indexer data s of
        (u, s', t) \<Rightarrow> (iData @ upserts data, unhandled @ u, (s', tr @ t)))"
proof (induction data arbitrary: iData unhandled s tr)
  case Nil
  then show ?case by simp
next
  case (Cons datum data)
  show ?case
  proof (cases datum)
    case OtherDatum
    then show ?thesis using Cons.IH by simp
  next
    case (IndexerDatum d)
    show ?thesis
    proof (cases "IsDelete d")
      case False
      then show ?thesis using IndexerDatum Cons.IH by simp
    next
      case True
      obtain err s1 where del: "Delete indexer (IDs d) s = (err, s1)" by (cases "Delete indexer (IDs d) s")
      obtain alive s2 where ping: "Ping indexer s1 = (alive, s2)" by (cases "Ping indexer s1")
      show ?thesis
      proof (cases err)
        case None
        then show ?thesis using IndexerDatum True del Cons.IH
          by (simp add: do_Delete_def split: prod.splits)
      next
        case (Some e)
        then show ?thesis using IndexerDatum True del ping Cons.IH
          by (simp add: do_Delete_def do_Ping_def split: prod.splits)
      qed
    qed
  qed
qed

lemma loop_view_no_index:
  "list_all (\<lambda>c. \<not> is_index_call c) (snd (snd (loop_view indexer data s)))"
proof (induction data arbitrary: s)
  case Nil
  then show ?case by simp
next
  case (Cons datum data)
  then show ?case
    by (cases datum) (simp_all add: case_prod_unfold Let_def split: option.splits)
qed


lemma loop_view_verdicts_length:
  "length (delete_verdicts (snd (snd (loop_view indexer data s)))) = length (deletes data)"
proof (induction data arbitrary: s)
  case Nil
  then show ?case by simp
next
  case (Cons datum data)
  then show ?case
    by (cases datum) (simp_all add: case_prod_unfold Let_def split: option.splits)
qed

lemma loop_view_verdicts_append:
  "delete_verdicts (snd (snd (loop_view indexer data s)) @ post)
     = delete_verdicts (snd (snd (loop_view indexer data s))) @ delete_verdicts post"
proof (induction data arbitrary: s)
  case Nil
  then show ?case by simp
next
  case (Cons datum data)
  then show ?case
    by (cases datum) (simp_all add: case_prod_unfold Let_def split: option.splits)
qed

lemma loop_view_unhandled:
  "fst (loop_view indexer data s)
     = map IndexerDatum (redelivered data (snd (snd (loop_view indexer data s))))"
proof (induction data arbitrary: s)
  case Nil
  then show ?case by (simp add: redelivered_def)
next
  case (Cons datum data)
  then show ?case
    by (cases datum) (simp_all add: redelivered_def case_prod_unfold Let_def split: option.splits)
qed

lemma handler_Some:
  "handler (Some indexer) data s =
     (case loop_view indexer data s of
        (u, s1, t) \<Rightarrow>
          if u \<noteq> [] then (u @ map IndexerDatum (upserts data), (s1, t))
          else (case Index indexer (upserts data) s1 of
                  (None, s2) \<Rightarrow> ([], (s2, t @ [CallIndex (upserts data) None]))
                | (Some e, s2) \<Rightarrow>
                    (case Ping indexer s2 of
                       (alive, s3) \<Rightarrow>
                         (if alive then [] else map IndexerDatum (upserts data),
                          (s3, t @ [CallIndex (upserts data) (Some e), CallPing alive])))))"
  by (simp add: handler_def handler_loop_loop_view do_Index_def do_Ping_def
           split: prod.splits option.splits)







lemma filter_zip_verdict:
  "length xs = length bs \<Longrightarrow> True \<in> set bs \<Longrightarrow> filter snd (zip xs bs) \<noteq> []"
  by (induction xs bs rule: list_induct2) auto

subsection \<open>Runs of the handler on the example backends\<close>

lemmas handler_eval =
  handler_def do_Delete_def do_Ping_def do_Index_def stub_indexer_def
  upsert_record_def delete_record_def

lemma run_index_fails_dead:
  "handler (Some (stub_indexer True False False []))
     [IndexerDatum (upsert_record 1), IndexerDatum (delete_record [7]),
      IndexerDatum (upsert_record 3)] 0
   = ([IndexerDatum (upsert_record 1), IndexerDatum (upsert_record 3)],
      (3, [CallDelete [7] None,
           CallIndex [upsert_record 1, upsert_record 3] (Some (Error ''index failed'')),
           CallPing False]))"
  by (simp add: handler_eval)

lemma run_delete_fails_dead:
  "handler (Some (stub_indexer False True False []))
     [IndexerDatum (upsert_record 1), IndexerDatum (delete_record [7]),
      IndexerDatum (upsert_record 3)] 0
   = ([IndexerDatum (delete_record [7]), IndexerDatum (upsert_record 1),
       IndexerDatum (upsert_record 3)],
      (2, [CallDelete [7] (Some (Error ''delete failed'')), CallPing False]))"
  by (simp add: handler_eval)

subsection \<open>Claim C1\<close>

text \<open>
  Claim C1. For every batch, when the single batched call of \<open>Index\<close> over the
  accumulated upsert records fails, the handler probes \<open>Ping\<close>. In the record of calls,
  the failed \<open>Index\<close> call is the only \<open>Index\<close> call, its argument is the list of all
  upsert records of the batch, and it is followed by one \<open>Ping\<close>, which ends the run.
  When \<open>Ping\<close> answers true the residual is empty (every upsert record is dropped, none
  is redelivered); when it answers false the residual is the list of all upsert records of
  the batch.
\<close>

theorem handler_index_failure:
  assumes run0: "handler got data s = (residual, (s', tr))"
      and failed: "CallIndex recs (Some e) \<in> set tr"
  shows "\<exists>alive pre.
           tr = pre @ [CallIndex (upserts data) (Some e), CallPing alive]
         \<and> list_all (\<lambda>c. \<not> is_index_call c) pre
         \<and> recs = upserts data
         \<and> residual = (if alive then [] else map IndexerDatum (upserts data))"
proof -
  obtain indexer where run: "handler (Some indexer) data s = (residual, (s', tr))"
    using run0 failed by (cases got) (auto simp: handler_def)
  obtain u s1 t where lv: "loop_view indexer data s = (u, s1, t)"
    by (cases "loop_view indexer data s")
  have clean: "list_all (\<lambda>c. \<not> is_index_call c) t"
    using loop_view_no_index [of indexer data s] lv by simp
  then have notin: "CallIndex recs (Some e) \<notin> set t"
    by (auto simp: list_all_iff)
  obtain err s2 where ix: "Index indexer (upserts data) s1 = (err, s2)"
    by (cases "Index indexer (upserts data) s1")
  obtain alive s3 where pg: "Ping indexer s2 = (alive, s3)"
    by (cases "Ping indexer s2")
  show ?thesis
  proof (cases "u = []")
    case False
    then have "tr = t" using run lv by (simp add: handler_Some)
    then show ?thesis using failed notin by simp
  next
    case True
    show ?thesis
    proof (cases err)
      case None
      then have "tr = t @ [CallIndex (upserts data) None]"
        using run lv ix True by (simp add: handler_Some)
      then show ?thesis using failed notin by simp
    next
      case (Some e')
      then have tr: "tr = t @ [CallIndex (upserts data) (Some e'), CallPing alive]"
        and res: "residual = (if alive then [] else map IndexerDatum (upserts data))"
        using run lv ix pg True by (simp_all add: handler_Some)
      from tr failed notin have "recs = upserts data" "e = e'" by simp_all
      with tr res clean show ?thesis by blast
    qed
  qed
qed

theorem handler_index_failure_witness:
  "handler (Some (stub_indexer True False False []))
     [IndexerDatum (upsert_record 1), IndexerDatum (delete_record [7]),
      IndexerDatum (upsert_record 3)] 0
   = ([IndexerDatum (upsert_record 1), IndexerDatum (upsert_record 3)],
      (3, [CallDelete [7] None,
           CallIndex [upsert_record 1, upsert_record 3] (Some (Error ''index failed'')),
           CallPing False]))
   \<and> CallIndex [upsert_record 1, upsert_record 3] (Some (Error ''index failed''))
       \<in> set [CallDelete [7] None,
                CallIndex [upsert_record 1, upsert_record 3] (Some (Error ''index failed'')),
                CallPing False]
   \<and> (\<exists>alive pre.
         [CallDelete [7] None,
          CallIndex [upsert_record 1, upsert_record 3] (Some (Error ''index failed'')),
          CallPing False]
         = pre @ [CallIndex (upserts [IndexerDatum (upsert_record 1),
                                      IndexerDatum (delete_record [7]),
                                      IndexerDatum (upsert_record 3)])
                    (Some (Error ''index failed'')), CallPing alive]
       \<and> list_all (\<lambda>c. \<not> is_index_call c) pre
       \<and> [upsert_record 1, upsert_record 3]
           = upserts [IndexerDatum (upsert_record 1), IndexerDatum (delete_record [7]),
                      IndexerDatum (upsert_record 3)]
       \<and> [IndexerDatum (upsert_record 1), IndexerDatum (upsert_record 3)]
           = (if alive then []
              else map IndexerDatum
                     (upserts [IndexerDatum (upsert_record 1), IndexerDatum (delete_record [7]),
                               IndexerDatum (upsert_record 3)])))"
proof -
  let ?c = "CallIndex [upsert_record 1, upsert_record 3] (Some (Error ''index failed''))"
  have mem: "?c \<in> set [CallDelete [7] None, ?c, CallPing False]"
    by simp
  show ?thesis
    by (intro conjI) (rule run_index_fails_dead, rule mem,
                      rule handler_index_failure [OF run_index_fails_dead mem])
qed

subsection \<open>Claim C2\<close>




subsection \<open>Claim C3\<close>

text \<open>
  Claim C3, as stated: in every batch in which some delete record failed, \<open>Index\<close> is
  never called and the residual is the unhandled list with the upsert records appended.
  The handler short-circuits only when \<open>unhandled\<close> is not empty, and a failed delete
  record enters \<open>unhandled\<close> only when \<open>Ping\<close> finds the backend dead. On the batch
  below \<open>Delete\<close> fails, \<open>Ping\<close> answers true, \<open>Index\<close> is called on the upsert
  record, and the residual is empty.
\<close>

theorem handler_failed_delete_still_indexes:
  "handler (Some (stub_indexer False True True []))
     [IndexerDatum (delete_record [7]), IndexerDatum (upsert_record 1)] 0
   = ([], (3, [CallDelete [7] (Some (Error ''delete failed'')), CallPing True,
               CallIndex [upsert_record 1] None]))"
  by (simp add: handler_eval)

text \<open>
  Claim C3, amended. For every batch in which the \<open>Delete\<close> call of some delete record
  failed and the \<open>Ping\<close> that followed found the backend dead, the handler
  short-circuits: it makes no call of \<open>Index\<close>, and its residual is exactly the
  unhandled list, which is those delete records in the order of the batch followed by all
  upsert records of the batch in the order of the batch.
\<close>

theorem handler_short_circuit:
  assumes run0: "handler got data s = (residual, (s', tr))"
      and dead: "True \<in> set (delete_verdicts tr)"
  shows "list_all (\<lambda>c. \<not> is_index_call c) tr
       \<and> residual = map IndexerDatum (redelivered data tr) @ map IndexerDatum (upserts data)"
proof -
  obtain indexer where run: "handler (Some indexer) data s = (residual, (s', tr))"
    using run0 dead by (cases got) (auto simp: handler_def)
  obtain u s1 t where lv: "loop_view indexer data s = (u, s1, t)"
    by (cases "loop_view indexer data s")
  have clean: "list_all (\<lambda>c. \<not> is_index_call c) t"
    using loop_view_no_index [of indexer data s] lv by simp
  have verd: "\<And>post. delete_verdicts (t @ post) = delete_verdicts t @ delete_verdicts post"
    using loop_view_verdicts_append [of indexer data s] lv by simp
  have len: "length (delete_verdicts t) = length (deletes data)"
    using loop_view_verdicts_length [of indexer data s] lv by simp
  have u: "u = map IndexerDatum (redelivered data t)"
    using loop_view_unhandled [of indexer data s] lv by simp
  obtain err s2 where ix: "Index indexer (upserts data) s1 = (err, s2)"
    by (cases "Index indexer (upserts data) s1")
  obtain alive s3 where pg: "Ping indexer s2 = (alive, s3)"
    by (cases "Ping indexer s2")
  have "True \<in> set (delete_verdicts t)"
  proof (cases "u = []")
    case False
    then have "tr = t" using run lv by (simp add: handler_Some)
    then show ?thesis using dead by simp
  next
    case True
    then show ?thesis using run lv ix pg dead verd
      by (cases err) (auto simp: handler_Some)
  qed
  then have "u \<noteq> []"
    unfolding u redelivered_def using filter_zip_verdict [OF len [symmetric]] by simp
  then have "tr = t" "residual = u @ map IndexerDatum (upserts data)"
    using run lv by (simp_all add: handler_Some)
  then show ?thesis using clean u by simp
qed

theorem handler_short_circuit_witness:
  "handler (Some (stub_indexer False True False []))
     [IndexerDatum (upsert_record 1), IndexerDatum (delete_record [7]),
      IndexerDatum (upsert_record 3)] 0
   = ([IndexerDatum (delete_record [7]), IndexerDatum (upsert_record 1),
       IndexerDatum (upsert_record 3)],
      (2, [CallDelete [7] (Some (Error ''delete failed'')), CallPing False]))
   \<and> True \<in> set (delete_verdicts
                   [CallDelete [7] (Some (Error ''delete failed'')), CallPing False])
   \<and> list_all (\<lambda>c. \<not> is_index_call c)
        [CallDelete [7] (Some (Error ''delete failed'')), CallPing False]
   \<and> [IndexerDatum (delete_record [7]), IndexerDatum (upsert_record 1),
       IndexerDatum (upsert_record 3)]
       = map IndexerDatum
           (redelivered [IndexerDatum (upsert_record 1), IndexerDatum (delete_record [7]),
                         IndexerDatum (upsert_record 3)]
              [CallDelete [7] (Some (Error ''delete failed'')), CallPing False])
         @ map IndexerDatum
             (upserts [IndexerDatum (upsert_record 1), IndexerDatum (delete_record [7]),
                       IndexerDatum (upsert_record 3)])"
proof -
  have dead: "True \<in> set (delete_verdicts
                 [CallDelete [7] (Some (Error ''delete failed'')), CallPing False])"
    by simp
  from handler_short_circuit [OF run_delete_fails_dead dead]
  show ?thesis
    by (intro conjI) (rule run_delete_fails_dead, rule dead, simp_all only:)
qed

section \<open>Properties of the indexer holder\<close>

lemma run_holder_Nil: "run_holder [] \<sigma> = \<sigma>"
  by (simp add: run_holder_def)

lemma run_holder_Cons: "run_holder (e # es) \<sigma> = run_holder es (holder_step \<sigma> e)"
  by (simp add: run_holder_def)

lemma run_holder_append: "run_holder (es @ es') \<sigma> = run_holder es' (run_holder es \<sigma>)"
  by (simp add: run_holder_def)

lemma waiting_stays:
  "list_all (\<lambda>e. \<not> is_writer e) es \<Longrightarrow> run_holder es (h, Waiting) = (h, Waiting)"
proof (induction es)
  case Nil
  then show ?case by (simp add: run_holder_Nil)
next
  case (Cons e es)
  then show ?case by (cases e) (simp_all add: run_holder_Cons)
qed

lemma no_set_keeps_nil:
  "list_all (\<lambda>e. \<not> is_set e) es \<Longrightarrow> holder_indexer h = None \<Longrightarrow>
     holder_indexer (fst (run_holder es (h, pc))) = None"
proof (induction es arbitrary: h pc)
  case Nil
  then show ?case by (simp add: run_holder_Nil)
next
  case (Cons e es)
  then show ?case by (cases e) (simp_all add: run_holder_Cons cancel_def)
qed

lemma cancelled_stays:
  "holder_cancelled h \<Longrightarrow> holder_cancelled (fst (run_holder es (h, pc)))"
proof (induction es arbitrary: h pc)
  case Nil
  then show ?case by (simp add: run_holder_Nil)
next
  case (Cons e es)
  then show ?case by (cases e) (simp_all add: run_holder_Cons cancel_def set_holder_def)
qed

lemma cancel_sets_flag:
  "CallCancel \<in> set es \<Longrightarrow> holder_cancelled (fst (run_holder es (h, pc)))"
proof (induction es arbitrary: h pc)
  case Nil
  then show ?case by simp
next
  case (Cons e es)
  show ?case
  proof (cases e)
    case CallCancel
    then show ?thesis by (simp add: run_holder_Cons cancelled_stays cancel_def)
  next
    case (CallSet b)
    then show ?thesis using Cons by (simp add: run_holder_Cons)
  next
    case GetRuns
    then show ?thesis using Cons by (simp add: run_holder_Cons)
  qed
qed

subsection \<open>Claim C4\<close>

text \<open>
  Claim C4. A \<open>get\<close> that starts on the new holder, before any \<open>set\<close> or \<open>cancel\<close>,
  is suspended and stays suspended in every schedule without \<open>set\<close> and \<open>cancel\<close>;
  after the first \<open>set\<close> or \<open>cancel\<close> its next step returns, the indexer that was
  set or nil after a \<open>cancel\<close>. In every schedule from the new holder in which
  \<open>cancel\<close> was called and \<open>set\<close> never was, a \<open>get\<close> that then starts returns nil
  at its first step, without waiting.
\<close>

theorem holder_get_blocking:
  "(list_all (\<lambda>e. \<not> is_writer e) es \<longrightarrow>
      snd (run_holder (GetRuns # es) (newIndexerHolder, Entry)) = Waiting)
   \<and> (list_all (\<lambda>e. \<not> is_writer e) es \<longrightarrow>
        snd (run_holder (GetRuns # es @ [CallSet b, GetRuns]) (newIndexerHolder, Entry)) = Got b
      \<and> snd (run_holder (GetRuns # es @ [CallCancel, GetRuns]) (newIndexerHolder, Entry))
          = Got None)
   \<and> (list_all (\<lambda>e. \<not> is_set e) es' \<and> CallCancel \<in> set es' \<longrightarrow>
        get (fst (run_holder es' (newIndexerHolder, pc))) Entry = Got None)"
proof (intro conjI impI)
  assume quiet: "list_all (\<lambda>e. \<not> is_writer e) es"
  show "snd (run_holder (GetRuns # es) (newIndexerHolder, Entry)) = Waiting"
    by (simp add: run_holder_Cons newIndexerHolder_def waiting_stays [OF quiet])
  show "snd (run_holder (GetRuns # es @ [CallSet b, GetRuns]) (newIndexerHolder, Entry)) = Got b"
    by (simp add: run_holder_Cons run_holder_append run_holder_Nil newIndexerHolder_def
          waiting_stays [OF quiet] set_holder_def)
  show "snd (run_holder (GetRuns # es @ [CallCancel, GetRuns]) (newIndexerHolder, Entry))
          = Got None"
    by (simp add: run_holder_Cons run_holder_append run_holder_Nil newIndexerHolder_def
          waiting_stays [OF quiet] cancel_def)
next
  assume a: "list_all (\<lambda>e. \<not> is_set e) es' \<and> CallCancel \<in> set es'"
  let ?h = "fst (run_holder es' (newIndexerHolder, pc))"
  have "holder_indexer ?h = None"
    using a by (intro no_set_keeps_nil) (simp_all add: newIndexerHolder_def)
  moreover have "holder_cancelled ?h"
    using a by (intro cancel_sets_flag) simp
  ultimately show "get ?h Entry = Got None" by simp
qed

theorem holder_get_blocking_witness:
  "list_all (\<lambda>e. \<not> is_writer e) [GetRuns, GetRuns :: nat holder_event]
   \<and> snd (run_holder [GetRuns, GetRuns, GetRuns] (newIndexerHolder :: nat indexerHolder, Entry))
       = Waiting
   \<and> snd (run_holder [GetRuns, GetRuns, GetRuns, CallSet (Some 5), GetRuns]
            (newIndexerHolder :: nat indexerHolder, Entry)) = Got (Some 5)
   \<and> snd (run_holder [GetRuns, GetRuns, GetRuns, CallCancel, GetRuns]
            (newIndexerHolder :: nat indexerHolder, Entry)) = Got None
   \<and> list_all (\<lambda>e. \<not> is_set e) [GetRuns, CallCancel, CallCancel :: nat holder_event]
   \<and> CallCancel \<in> set [GetRuns, CallCancel, CallCancel :: nat holder_event]
   \<and> get (fst (run_holder [GetRuns, CallCancel, CallCancel]
                 (newIndexerHolder :: nat indexerHolder, Entry))) Entry = Got None"
  using holder_get_blocking [of "[GetRuns, GetRuns]" "Some (5::nat)"
          "[GetRuns, CallCancel, CallCancel]" Entry]
  by simp

section \<open>Properties of the search\<close>

lemma append_hit_ids_map: "append_hit_ids hits issueIDs = issueIDs @ map Match_ID hits"
  by (induction hits arbitrary: issueIDs) simp_all

lemma search_stub:
  "Search (stub_indexer True True True [Match 42 9, Match 43 5]) ''login'' [7] 50 0 0
   = ((Some \<lparr> Total = 2, Hits = [Match 42 9, Match 43 5] \<rparr>, None), Suc 0)"
  by (simp add: stub_indexer_def)

subsection \<open>Claim C5\<close>

text \<open>
  Claim C5. \<open>SearchIssuesByKeyword\<close> returns a non-nil error in exactly two cases:
  the holder gave a nil indexer, or the \<open>Search\<close> of the backend returned an error. It
  returns with a nil error exactly when the backend returned a result and no error, and
  what it returns then is the list of the ids of the hits of that result, in the order of
  the backend; the scores are not part of what it returns.
\<close>

theorem SearchIssuesByKeyword_result:
  "((\<exists>ids e. fst (SearchIssuesByKeyword got repoIDs keyword s) = Return (ids, Some e))
      \<longleftrightarrow> (got = None
           \<or> (\<exists>indexer. got = Some indexer
                 \<and> snd (fst (Search indexer keyword repoIDs 50 0 s)) \<noteq> None)))
   \<and> (fst (SearchIssuesByKeyword got repoIDs keyword s) = Return (ids, None)
        \<longleftrightarrow> (\<exists>indexer res. got = Some indexer
               \<and> fst (Search indexer keyword repoIDs 50 0 s) = (Some res, None)
               \<and> ids = map Match_ID (Hits res)))"
  by (cases got)
     (auto simp: SearchIssuesByKeyword_def do_Search_def append_hit_ids_map
           split: prod.splits option.splits)

theorem SearchIssuesByKeyword_result_witness:
  "fst (Search (stub_indexer True True True [Match 42 9, Match 43 5]) ''login'' [7] 50 0 0)
     = (Some \<lparr> Total = 2, Hits = [Match 42 9, Match 43 5] \<rparr>, None)
   \<and> fst (SearchIssuesByKeyword
            (Some (stub_indexer True True True [Match 42 9, Match 43 5])) [7] ''login'' 0)
       = Return ([42, 43], None)
   \<and> (\<exists>ids e. fst (SearchIssuesByKeyword (None :: nat Indexer option) [7] ''login'' 0)
                 = Return (ids, Some e))"
proof -
  let ?b = "stub_indexer True True True [Match 42 9, Match 43 5]"
  have s: "fst (Search ?b ''login'' [7] 50 0 0)
             = (Some \<lparr> Total = 2, Hits = [Match 42 9, Match 43 5] \<rparr>, None)"
    by (simp add: search_stub)
  have "fst (SearchIssuesByKeyword (Some ?b) [7] ''login'' 0) = Return ([42, 43], None)"
    using SearchIssuesByKeyword_result [of "Some ?b" "[7]" "''login''" 0 "[42, 43]"] s
    by simp
  moreover have "\<exists>ids e. fst (SearchIssuesByKeyword (None :: nat Indexer option) [7] ''login'' 0)
                 = Return (ids, Some e)"
    using SearchIssuesByKeyword_result [of "None :: nat Indexer option" "[7]" "''login''" 0]
    by simp
  ultimately show ?thesis using s by simp
qed

subsection \<open>Claim C10\<close>




section \<open>Properties of the mutation entry points\<close>

lemma collect_comments_filter:
  "collect_comments t cs comments
     = comments @ map Comment_Content (filter (\<lambda>c. Comment_Type c = t) cs)"
  by (induction cs arbitrary: comments) simp_all

lemma pushes_append: "pushes (tr @ tr') = pushes tr @ pushes tr'"
  by (induction tr rule: pushes.induct) simp_all

lemma UpdateIssueIndexer_snd:
  "snd (UpdateIssueIndexer W issue (w, tr))
     = tr @ [EvPush \<lparr> ID = Issue_ID issue, RepoID = Issue_RepoID issue,
                       Title = Issue_Title issue, Content = Issue_Content issue,
                       Comments = map Comment_Content
                                    (filter (\<lambda>c. Comment_Type c = CommentTypeComment W)
                                       (Issue_Comments issue)),
                       IsDelete = False, IDs = [] \<rparr>]"
  by (simp add: UpdateIssueIndexer_def do_Push_def collect_comments_filter Let_def
           split: prod.splits)

lemma UpdateIssueIndexer_trace:
  "\<exists>r. snd (UpdateIssueIndexer W issue \<sigma>) = snd \<sigma> @ [EvPush r]
       \<and> single_upsert r \<and> ID r = Issue_ID issue"
  by (cases \<sigma>) (simp add: UpdateIssueIndexer_snd single_upsert_def)

lemma update_issues_pushes:
  "list_all single_upsert (pushes (snd \<sigma>)) \<Longrightarrow>
     list_all single_upsert (pushes (snd (update_issues W is \<sigma>)))"
proof (induction "is" arbitrary: \<sigma>)
  case Nil
  then show ?case by simp
next
  case (Cons issue "is")
  obtain r where "snd (UpdateIssueIndexer W issue \<sigma>) = snd \<sigma> @ [EvPush r]" "single_upsert r"
    using UpdateIssueIndexer_trace [of W issue \<sigma>] by blast
  then have "list_all single_upsert (pushes (snd (UpdateIssueIndexer W issue \<sigma>)))"
    using Cons.prems by (simp add: pushes_append)
  then show ?case using Cons.IH by simp
qed

lemma UpdateRepoIndexer_pushes:
  "list_all single_upsert (pushes (snd \<sigma>)) \<Longrightarrow>
     list_all single_upsert (pushes (snd (UpdateRepoIndexer W repo \<sigma>)))"
  by (auto simp: UpdateRepoIndexer_def do_Issues_def do_LoadDiscussComments_def Let_def
        pushes_append intro!: update_issues_pushes split: prod.splits sum.splits)

lemmas world_eval =
  populateIssueIndexer_def do_Done_def do_SearchRepositoryByName_def do_Issues_def
  do_LoadDiscussComments_def do_GetIssueIDsByRepoID_def do_Push_def
  UpdateRepoIndexer_def UpdateIssueIndexer_def DeleteRepoIssueIndexer_def
  stub_world_def stub_issue_def Let_def

subsection \<open>Claim C6\<close>

text \<open>
  Claim C6. For every issue, \<open>UpdateIssueIndexer\<close> makes one call, a \<open>Push\<close> of a
  record, and leaves the world as that \<open>Push\<close> leaves it. The record carries the id,
  the repository id, the title and the body of the issue, and its comments are the bodies
  of exactly those comments of the issue whose type is the regular comment type, in their
  order in the issue; comments of any other type are left out.
\<close>

theorem UpdateIssueIndexer_record:
  "(let indexerData =
          \<lparr> ID = Issue_ID issue, RepoID = Issue_RepoID issue,
            Title = Issue_Title issue, Content = Issue_Content issue,
            Comments = map Comment_Content
                         (filter (\<lambda>c. Comment_Type c = CommentTypeComment W)
                            (Issue_Comments issue)),
            IsDelete = False, IDs = [] \<rparr>
    in UpdateIssueIndexer W issue (w, tr)
         = (snd (Push W indexerData w), tr @ [EvPush indexerData]))"
proof -
  have "collect_comments (CommentTypeComment W) (Issue_Comments issue) []
          = map Comment_Content
              (filter (\<lambda>c. Comment_Type c = CommentTypeComment W) (Issue_Comments issue))"
    by (simp add: collect_comments_filter)
  then show ?thesis
    by (simp add: UpdateIssueIndexer_def do_Push_def Let_def split: prod.splits)
qed

subsection \<open>Claim C7\<close>

text \<open>
  Claim C7. When the lookup of the issue ids of the repository succeeds,
  \<open>DeleteRepoIssueIndexer\<close> pushes nothing if the list of ids is empty: the lookup is
  its only call, and the world is left as the lookup left it. Otherwise it pushes exactly
  one record, with the delete flag on and the whole list as its ids: the lookup and that
  \<open>Push\<close> are its only calls, and the world is left as the \<open>Push\<close> left it.
\<close>

theorem DeleteRepoIssueIndexer_push:
  assumes "GetIssueIDsByRepoID W (Repo_ID repo) w = (Inr ids, w')"
  shows "DeleteRepoIssueIndexer W repo (w, tr)
           = (if ids = [] then (w', tr @ [EvGetIssueIDsByRepoID (Repo_ID repo)])
              else
                (let indexerData = \<lparr> ID = 0, RepoID = 0, Title = [], Content = [],
                                       Comments = [], IsDelete = True, IDs = ids \<rparr>
                 in (snd (Push W indexerData w'),
                     tr @ [EvGetIssueIDsByRepoID (Repo_ID repo), EvPush indexerData])))"
  using assms
  by (simp add: DeleteRepoIssueIndexer_def do_GetIssueIDsByRepoID_def do_Push_def Let_def
           split: prod.splits)

theorem DeleteRepoIssueIndexer_push_witness:
  "GetIssueIDsByRepoID (stub_world 9) (Repo_ID \<lparr> Repo_ID = 7 \<rparr>) 0 = (Inr [42, 43], Suc 0)
   \<and> DeleteRepoIssueIndexer (stub_world 9) \<lparr> Repo_ID = 7 \<rparr> (0, [])
       = (Suc (Suc 0),
          [EvGetIssueIDsByRepoID 7,
           EvPush \<lparr> ID = 0, RepoID = 0, Title = [], Content = [], Comments = [],
                    IsDelete = True, IDs = [42, 43] \<rparr>])
   \<and> GetIssueIDsByRepoID (stub_world 9) (Repo_ID \<lparr> Repo_ID = 8 \<rparr>) 0 = (Inr [], Suc 0)
   \<and> DeleteRepoIssueIndexer (stub_world 9) \<lparr> Repo_ID = 8 \<rparr> (0, [])
       = (Suc 0, [EvGetIssueIDsByRepoID 8])"
proof -
  have a: "GetIssueIDsByRepoID (stub_world 9) (Repo_ID \<lparr> Repo_ID = 7 \<rparr>) 0 = (Inr [42, 43], Suc 0)"
    by (simp add: stub_world_def)
  have b: "GetIssueIDsByRepoID (stub_world 9) (Repo_ID \<lparr> Repo_ID = 8 \<rparr>) 0 = (Inr [], Suc 0)"
    by (simp add: stub_world_def)
  have p: "snd (Push (stub_world 9) r (Suc 0)) = Suc (Suc 0)" for r
    by (simp add: stub_world_def)
  from DeleteRepoIssueIndexer_push [OF a, of "[]"] DeleteRepoIssueIndexer_push [OF b, of "[]"]
    a b p
  show ?thesis by (simp add: Let_def)
qed

subsection \<open>Claim C8\<close>

text \<open>
  Claim C8. Every record that the mutation entry points push has one of the two shapes
  and not the other. A record pushed by \<open>UpdateIssueIndexer\<close> is a single-item upsert:
  the delete flag is off, the id is the id of the issue and the id list is empty; so is
  every record pushed by \<open>UpdateRepoIndexer\<close>. A record pushed by
  \<open>DeleteRepoIssueIndexer\<close> is a bulk delete: the delete flag is on, the id list is not
  empty and the id is left at zero.
\<close>

theorem produced_records_shape:
  "(\<forall>r \<in> set (pushes (snd (UpdateIssueIndexer W issue (w, [])))).
       single_upsert r \<and> ID r = Issue_ID issue \<and> \<not> bulk_delete r)
   \<and> (\<forall>r \<in> set (pushes (snd (DeleteRepoIssueIndexer W repo (w, [])))).
         bulk_delete r \<and> \<not> single_upsert r)
   \<and> (\<forall>r \<in> set (pushes (snd (UpdateRepoIndexer W repo (w, [])))). single_upsert r)"
proof (intro conjI)
  show "\<forall>r \<in> set (pushes (snd (UpdateIssueIndexer W issue (w, [])))).
       single_upsert r \<and> ID r = Issue_ID issue \<and> \<not> bulk_delete r"
    by (simp add: UpdateIssueIndexer_snd single_upsert_def bulk_delete_def)
  show "\<forall>r \<in> set (pushes (snd (DeleteRepoIssueIndexer W repo (w, [])))).
         bulk_delete r \<and> \<not> single_upsert r"
    by (auto simp: DeleteRepoIssueIndexer_def do_GetIssueIDsByRepoID_def do_Push_def Let_def
          single_upsert_def bulk_delete_def split: prod.splits sum.splits if_splits)
  have "list_all single_upsert (pushes (snd (UpdateRepoIndexer W repo (w, []))))"
    by (rule UpdateRepoIndexer_pushes) simp
  then show "\<forall>r \<in> set (pushes (snd (UpdateRepoIndexer W repo (w, [])))). single_upsert r"
    by (simp add: list_all_iff)
qed

theorem produced_records_shape_witness:
  "pushes (snd (UpdateIssueIndexer (stub_world 9) (stub_issue 7) (0, [])))
     = [\<lparr> ID = 42, RepoID = 7, Title = ''fix login bug'', Content = ''it fails'',
          Comments = [''see patch attached''], IsDelete = False, IDs = [] \<rparr>]
   \<and> single_upsert \<lparr> ID = 42, RepoID = 7, Title = ''fix login bug'', Content = ''it fails'',
          Comments = [''see patch attached''], IsDelete = False, IDs = [] \<rparr>
   \<and> pushes (snd (DeleteRepoIssueIndexer (stub_world 9) \<lparr> Repo_ID = 7 \<rparr> (0, [])))
       = [\<lparr> ID = 0, RepoID = 0, Title = [], Content = [], Comments = [],
            IsDelete = True, IDs = [42, 43] \<rparr>]
   \<and> bulk_delete \<lparr> ID = 0, RepoID = 0, Title = [], Content = [], Comments = [],
            IsDelete = True, IDs = [42, 43] \<rparr>
   \<and> pushes (snd (UpdateRepoIndexer (stub_world 9) \<lparr> Repo_ID = 7 \<rparr> (0, [])))
       = [\<lparr> ID = 42, RepoID = 7, Title = ''fix login bug'', Content = ''it fails'',
            Comments = [''see patch attached''], IsDelete = False, IDs = [] \<rparr>]"
proof -
  have a: "pushes (snd (UpdateIssueIndexer (stub_world 9) (stub_issue 7) (0, [])))
     = [\<lparr> ID = 42, RepoID = 7, Title = ''fix login bug'', Content = ''it fails'',
          Comments = [''see patch attached''], IsDelete = False, IDs = [] \<rparr>]"
    by (simp add: world_eval)
  have b: "pushes (snd (DeleteRepoIssueIndexer (stub_world 9) \<lparr> Repo_ID = 7 \<rparr> (0, [])))
       = [\<lparr> ID = 0, RepoID = 0, Title = [], Content = [], Comments = [],
            IsDelete = True, IDs = [42, 43] \<rparr>]"
    by (simp add: world_eval)
  have c: "pushes (snd (UpdateRepoIndexer (stub_world 9) \<lparr> Repo_ID = 7 \<rparr> (0, [])))
       = [\<lparr> ID = 42, RepoID = 7, Title = ''fix login bug'', Content = ''it fails'',
            Comments = [''see patch attached''], IsDelete = False, IDs = [] \<rparr>]"
    by (simp add: world_eval)
  from produced_records_shape [of "stub_world 9" "stub_issue 7" 0 "\<lparr> Repo_ID = 7 \<rparr>"]
  show ?thesis unfolding a b c by simp
qed

section \<open>Properties of the populator\<close>

lemma guard_run_append: "guard_run (tr @ tr') = foldl guard_step (guard_run tr) tr'"
  by (simp add: guard_run_def)

lemma guard_Violated: "foldl guard_step Violated tr = Violated"
  by (induction tr) simp_all

lemma guard_Halted: "foldl guard_step Halted tr \<noteq> Violated \<Longrightarrow> tr = []"
  by (cases tr) (simp_all add: guard_Violated)

lemma guard_step_Checked: "guard_step q e = Checked \<Longrightarrow> e = EvDone False"
  by (cases "(q, e)" rule: guard_step.cases) (auto split: if_splits)

lemma guard_step_work:
  "starts_work e \<Longrightarrow> guard_step q e \<noteq> Violated \<Longrightarrow> q = Checked"
  by (cases "(q, e)" rule: guard_step.cases) (auto split: if_splits)

lemma guard_step_Done_True: "guard_step q (EvDone True) \<noteq> Violated \<Longrightarrow> guard_step q (EvDone True) = Halted"
  by (cases q) simp_all

lemma guard_run_Checked:
  assumes "guard_run pre = Checked"
  shows "\<exists>pre'. pre = pre' @ [EvDone False]"
proof (cases pre rule: rev_cases)
  case Nil
  then show ?thesis using assms by (simp add: guard_run_def)
next
  case (snoc pre' e)
  then have "guard_step (guard_run pre') e = Checked"
    using assms by (simp add: guard_run_append)
  then have "e = EvDone False" by (rule guard_step_Checked)
  then show ?thesis using snoc by simp
qed

lemma guard_run_split:
  "guard_run (pre @ e # post) = foldl guard_step (guard_step (guard_run pre) e) post"
  by (simp add: guard_run_def)

lemma guarded_work:
  assumes "guard_run tr \<noteq> Violated" "tr = pre @ e # post" "starts_work e"
  shows "\<exists>pre'. pre = pre' @ [EvDone False]"
proof -
  have "guard_step (guard_run pre) e \<noteq> Violated"
    using assms(1,2) guard_Violated by (auto simp: guard_run_split)
  then have "guard_run pre = Checked" using assms(3) guard_step_work by blast
  then show ?thesis by (rule guard_run_Checked)
qed

lemma guarded_halt:
  assumes "guard_run tr \<noteq> Violated" "tr = pre @ EvDone True # post"
  shows "post = [] \<and> guard_run tr = Halted"
proof -
  have nv: "guard_step (guard_run pre) (EvDone True) \<noteq> Violated"
    using assms guard_Violated by (auto simp: guard_run_split)
  then have h: "guard_step (guard_run pre) (EvDone True) = Halted"
    by (rule guard_step_Done_True)
  then have "post = []" using assms guard_Halted by (simp add: guard_run_split)
  then show ?thesis using assms(2) h by (simp add: guard_run_split)
qed

lemma UpdateIssueIndexer_guard:
  "guard_run (snd \<sigma>) = Idle \<or> guard_run (snd \<sigma>) = Checked \<Longrightarrow>
     guard_run (snd (UpdateIssueIndexer W issue \<sigma>)) = Idle"
  by (auto simp: UpdateIssueIndexer_def do_Push_def Let_def guard_run_append split: prod.splits)

lemma update_issues_guard:
  "guard_run (snd \<sigma>) = Idle \<Longrightarrow> guard_run (snd (update_issues W is \<sigma>)) = Idle"
  by (induction "is" arbitrary: \<sigma>) (simp_all add: UpdateIssueIndexer_guard)

lemma UpdateRepoIndexer_guard:
  "guard_run (snd \<sigma>) = Checked \<Longrightarrow> guard_run (snd (UpdateRepoIndexer W repo \<sigma>)) = Idle"
  by (auto simp: UpdateRepoIndexer_def do_Issues_def do_LoadDiscussComments_def Let_def
        guard_run_append intro!: update_issues_guard split: prod.splits sum.splits)

lemma populate_repos_guard:
  "guard_run (snd \<sigma>) = Idle \<Longrightarrow>
     guard_run (snd (snd (populate_repos W repos \<sigma>)))
       = (if fst (populate_repos W repos \<sigma>) then Idle else Halted)"
proof (induction repos arbitrary: \<sigma>)
  case Nil
  then show ?case by simp
next
  case (Cons repo repos)
  obtain cancelled w1 where d: "ctx_Done W (fst \<sigma>) = (cancelled, w1)"
    by (cases "ctx_Done W (fst \<sigma>)")
  show ?case
  proof (cases cancelled)
    case True
    then show ?thesis using d Cons.prems by (simp add: do_Done_def guard_run_append)
  next
    case False
    let ?\<sigma>1 = "(w1, snd \<sigma> @ [EvDone False])"
    have "guard_run (snd ?\<sigma>1) = Checked"
      using Cons.prems by (simp add: guard_run_append)
    then have "guard_run (snd (UpdateRepoIndexer W repo ?\<sigma>1)) = Idle"
      by (rule UpdateRepoIndexer_guard)
    then show ?thesis using d False Cons.IH by (simp add: do_Done_def)
  qed
qed

lemma populate_pages_guard:
  "guard_run (snd \<sigma>) = Idle \<Longrightarrow>
     (guard_run (snd (snd (populate_pages W n page \<sigma>))) = Idle
      \<or> guard_run (snd (snd (populate_pages W n page \<sigma>))) = Halted
         \<and> fst (populate_pages W n page \<sigma>) = Returned)"
proof (induction n arbitrary: page \<sigma>)
  case 0
  then show ?case by simp
next
  case (Suc n)
  obtain cancelled w1 where d: "ctx_Done W (fst \<sigma>) = (cancelled, w1)"
    by (cases "ctx_Done W (fst \<sigma>)")
  show ?case
  proof (cases cancelled)
    case True
    then show ?thesis using d Suc.prems by (simp add: do_Done_def guard_run_append)
  next
    case False
    obtain r w2 where sr: "SearchRepositoryByName W page w1 = (r, w2)"
      by (cases "SearchRepositoryByName W page w1")
    let ?\<sigma>2 = "(w2, snd \<sigma> @ [EvDone False, EvSearchRepositoryByName page])"
    have g2: "guard_run (snd ?\<sigma>2) = Idle"
      using Suc.prems by (simp add: guard_run_append)
    have unfold: "populate_pages W (Suc n) page \<sigma> =
        (case r of
           Inl err \<Rightarrow> populate_pages W n (page + 1) ?\<sigma>2
         | Inr repos \<Rightarrow>
             if length repos = 0 then (Returned, ?\<sigma>2)
             else (let (completed, \<sigma>3) = populate_repos W repos ?\<sigma>2
                   in if completed then populate_pages W n (page + 1) \<sigma>3
                      else (Returned, \<sigma>3)))"
      using d False sr by (simp add: do_Done_def do_SearchRepositoryByName_def)
    show ?thesis
    proof (cases r)
      case (Inl err)
      then show ?thesis using unfold Suc.IH [OF g2] by simp
    next
      case (Inr repos)
      show ?thesis
      proof (cases "length repos = 0")
        case True
        then show ?thesis using unfold Inr g2 by simp
      next
        case False
        obtain completed \<sigma>3 where pr: "populate_repos W repos ?\<sigma>2 = (completed, \<sigma>3)"
          by (cases "populate_repos W repos ?\<sigma>2")
        have g3: "guard_run (snd \<sigma>3) = (if completed then Idle else Halted)"
          using populate_repos_guard [OF g2, of W repos] pr by simp
        show ?thesis
        proof (cases completed)
          case True
          then have "guard_run (snd \<sigma>3) = Idle" using g3 by simp
          from Suc.IH [OF this] show ?thesis using unfold Inr False pr True by simp
        next
          case no: False
          then show ?thesis using unfold Inr False pr g3 by simp
        qed
      qed
    qed
  qed
qed

lemma run_cancelled_midway:
  "populateIssueIndexer (stub_world 5) (Suc (Suc 0)) 0
   = (Returned, (7, [EvDone False, EvSearchRepositoryByName 1, EvDone False, EvIssues 7,
                     EvLoadDiscussComments,
                     EvPush \<lparr> ID = 42, RepoID = 7, Title = ''fix login bug'',
                              Content = ''it fails'', Comments = [''see patch attached''],
                              IsDelete = False, IDs = [] \<rparr>,
                     EvDone True]))"
  by (simp add: world_eval)

subsection \<open>Claim C9\<close>

text \<open>
  Claim C9. In every run of the populator, each fetch of a page of repositories and each
  start of work on a repository comes right after a check of the cancellation signal
  that found it unset. A check that finds the signal set is the last event of the run,
  and the populator has then returned: no page is fetched and no record is pushed after
  it. A populator that starts with the signal set returns after that one check; and so
  does each iteration of its two loops: when the signal is set at the head of an
  iteration of the loop over the pages or of the loop over the repositories of a page,
  the function returns after the check, with no other call.
\<close>

theorem populateIssueIndexer_cancellation:
  assumes run: "populateIssueIndexer W n w = (st, (w', tr))"
  shows "(\<forall>pre e post. tr = pre @ e # post \<and> starts_work e
            \<longrightarrow> (\<exists>pre'. pre = pre' @ [EvDone False]))
       \<and> (\<forall>pre post. tr = pre @ EvDone True # post \<longrightarrow> post = [] \<and> st = Returned)
       \<and> (fst (ctx_Done W w) \<and> 0 < n \<longrightarrow>
            st = Returned \<and> w' = snd (ctx_Done W w) \<and> tr = [EvDone True])
       \<and> (fst (ctx_Done W (fst \<sigma>)) \<longrightarrow>
            populate_pages W (Suc m) page \<sigma>
              = (Returned, (snd (ctx_Done W (fst \<sigma>)), snd \<sigma> @ [EvDone True]))
          \<and> populate_repos W (repo # repos) \<sigma>
              = (False, (snd (ctx_Done W (fst \<sigma>)), snd \<sigma> @ [EvDone True])))"
proof -
  have "guard_run (snd (w, [])) = Idle" by (simp add: guard_run_def)
  from populate_pages_guard [OF this, of W n 1]
  have g: "guard_run tr = Idle \<or> guard_run tr = Halted \<and> st = Returned"
    using run by (simp add: populateIssueIndexer_def)
  then have nv: "guard_run tr \<noteq> Violated" by auto
  have a: "\<forall>pre e post. tr = pre @ e # post \<and> starts_work e
            \<longrightarrow> (\<exists>pre'. pre = pre' @ [EvDone False])"
    using guarded_work [OF nv] by blast
  have b: "\<forall>pre post. tr = pre @ EvDone True # post \<longrightarrow> post = [] \<and> st = Returned"
  proof (intro allI impI)
    fix pre post assume "tr = pre @ EvDone True # post"
    from guarded_halt [OF nv this] g show "post = [] \<and> st = Returned" by auto
  qed
  have c: "fst (ctx_Done W w) \<and> 0 < n \<longrightarrow>
            st = Returned \<and> w' = snd (ctx_Done W w) \<and> tr = [EvDone True]"
  proof
    assume h: "fst (ctx_Done W w) \<and> 0 < n"
    then obtain m where "n = Suc m" by (cases n) auto
    then show "st = Returned \<and> w' = snd (ctx_Done W w) \<and> tr = [EvDone True]"
      using run h
      by (auto simp: populateIssueIndexer_def do_Done_def split: prod.splits)
  qed
  have d: "fst (ctx_Done W (fst \<sigma>)) \<longrightarrow>
            populate_pages W (Suc m) page \<sigma>
              = (Returned, (snd (ctx_Done W (fst \<sigma>)), snd \<sigma> @ [EvDone True]))
          \<and> populate_repos W (repo # repos) \<sigma>
              = (False, (snd (ctx_Done W (fst \<sigma>)), snd \<sigma> @ [EvDone True]))"
    by (simp add: do_Done_def split: prod.splits)
  from a b c d show ?thesis by blast
qed

theorem populateIssueIndexer_cancellation_witness:
  "populateIssueIndexer (stub_world 5) (Suc (Suc 0)) 0
   = (Returned, (7, [EvDone False, EvSearchRepositoryByName 1, EvDone False, EvIssues 7,
                     EvLoadDiscussComments,
                     EvPush \<lparr> ID = 42, RepoID = 7, Title = ''fix login bug'',
                              Content = ''it fails'', Comments = [''see patch attached''],
                              IsDelete = False, IDs = [] \<rparr>,
                     EvDone True]))
   \<and> fst (ctx_Done (stub_world 0) (0::nat)) \<and> 0 < Suc (Suc 0)
   \<and> populateIssueIndexer (stub_world 0) (Suc (Suc 0)) 0 = (Returned, (Suc 0, [EvDone True]))
   \<and> populate_repos (stub_world 0) [\<lparr> Repo_ID = 7 \<rparr>, \<lparr> Repo_ID = 8 \<rparr>] (0, [])
       = (False, (Suc 0, [EvDone True]))"
proof -
  have d: "fst (ctx_Done (stub_world 0) (0::nat))" "snd (ctx_Done (stub_world 0) (0::nat)) = Suc 0"
    by (simp_all add: stub_world_def)
  obtain st w' tr where r: "populateIssueIndexer (stub_world 0) (Suc (Suc 0)) 0 = (st, (w', tr))"
    by (cases "populateIssueIndexer (stub_world 0) (Suc (Suc 0)) 0") auto
  from populateIssueIndexer_cancellation
         [OF r, where \<sigma> = "(0, [])" and repo = "\<lparr> Repo_ID = 7 \<rparr>"
            and repos = "[\<lparr> Repo_ID = 8 \<rparr>]"] d
  have "st = Returned \<and> w' = Suc 0 \<and> tr = [EvDone True]"
    and "populate_repos (stub_world 0) [\<lparr> Repo_ID = 7 \<rparr>, \<lparr> Repo_ID = 8 \<rparr>] (0, [])
           = (False, (Suc 0, [EvDone True]))"
    by simp_all
  with r d run_cancelled_midway show ?thesis by simp
qed

end
